theory Spec2Isabelle
  imports Complex_Main "HOL-Library.Word" "HOL-Library.Char_ord" "HOL-Library.List_Lexorder"
begin

section \<open>libsetting: a shallow embedding of \<open>setting.h\<close>\<close>

text \<open>
  The class \<open>dutil::setting\<close> keeps a \<open>std::map<std::string, std::string>\<close>, a recursion
  level and a scratch string. Strings are byte lists, \<open>size_t\<close> values are natural
  numbers with \<open>npos = 2^64 - 1\<close> (LP64), \<open>int\<close> is 32 bits wide, \<open>long\<close> and
  \<open>long long\<close> are 64 bits wide. Every \<open>std::string\<close> is shorter than \<open>npos\<close>;
  theorems that depend on it say so.
\<close>

subsection \<open>Characters and the pieces of \<open>std::string\<close> that the class calls\<close>

definition npos :: nat where
  "npos = 2 ^ 64 - 1"

definition NUL :: char where
  "NUL = CHR 0x00"

definition BSLASH :: char where
  "BSLASH = CHR 0x5C"

definition DOLLAR :: char where
  "DOLLAR = CHR ''$''"

definition LBRACE :: char where
  "LBRACE = CHR ''{''"

definition RBRACE :: char where
  "RBRACE = CHR ''}''"

text \<open>The array \<open>whitespace[] = " \t\r\n"\<close> of \<open>trim\<close>.\<close>

definition whitespace :: string where
  "whitespace = [CHR '' '', CHR 0x09, CHR 0x0D, CHR 0x0A]"

text \<open>\<open>isalnum\<close> of the C library in the "C" locale: ASCII digits and letters.\<close>

definition isalnum :: "char \<Rightarrow> bool" where
  "isalnum ch = (let n = (of_char ch :: nat) in
     (48 \<le> n \<and> n \<le> 57) \<or> (65 \<le> n \<and> n \<le> 90) \<or> (97 \<le> n \<and> n \<le> 122))"

text \<open>\<open>s.find(c, pos)\<close>: the first index at or after \<open>pos\<close> holding \<open>c\<close>, else \<open>npos\<close>.\<close>

definition find_chr :: "string \<Rightarrow> char \<Rightarrow> nat \<Rightarrow> nat" where
  "find_chr s c pos = (let r = drop pos s in
     if c \<in> set r then pos + length (takeWhile (\<lambda>x. x \<noteq> c) r) else npos)"

text \<open>\<open>s.find_first_not_of(ws)\<close> and \<open>s.find_last_not_of(ws)\<close>.\<close>

definition find_first_not_of :: "string \<Rightarrow> string \<Rightarrow> nat" where
  "find_first_not_of s ws =
     (if \<forall>x \<in> set s. x \<in> set ws then npos
      else length (takeWhile (\<lambda>x. x \<in> set ws) s))"

definition find_last_not_of :: "string \<Rightarrow> string \<Rightarrow> nat" where
  "find_last_not_of s ws =
     (if \<forall>x \<in> set s. x \<in> set ws then npos
      else length s - 1 - length (takeWhile (\<lambda>x. x \<in> set ws) (rev s)))"

text \<open>
  \<open>s.substr(pos, n)\<close> returns at most \<open>n\<close> characters starting at \<open>pos\<close>; it throws
  \<open>std::out_of_range\<close> exactly when \<open>pos > s.size()\<close>. The callers below either
  cannot reach that case (\<open>trim\<close>, see \<open>trim_begin_in_range\<close>) or test it
  (\<open>insert\<close>, \<open>get_vector\<close>).
\<close>

definition substr :: "string \<Rightarrow> nat \<Rightarrow> nat \<Rightarrow> string" where
  "substr s pos n = take n (drop pos s)"

text \<open>\<open>s.c_str()\<close> read as a C string: the characters before the first NUL.\<close>

definition c_str :: "string \<Rightarrow> string" where
  "c_str s = takeWhile (\<lambda>x. x \<noteq> NUL) s"

subsection \<open>\<open>trim\<close> and \<open>check_identifier\<close>\<close>

text \<open>
  \<^verbatim>\<open>
  begin = s.find_first_not_of(whitespace);
  if (begin == s.npos) return;          // *out is empty
  end = s.find_last_not_of(whitespace);
  *out = s.substr(begin, end + 1);
  \<close>
\<close>

definition trim :: "string \<Rightarrow> string" where
  "trim s = (let begin = find_first_not_of s whitespace in
     if begin = npos then []
     else let end = find_last_not_of s whitespace in substr s begin (end + 1))"

definition check_identifier :: "char \<Rightarrow> bool" where
  "check_identifier ch = (isalnum ch \<or> ch = CHR ''_'')"

subsection \<open>The object\<close>

text \<open>
  The members \<open>recursion_level_\<close>, \<open>map_\<close> and \<open>reserve_\<close> are the fields
  \<open>recursion_level\<close>, \<open>smap\<close> and \<open>reserve\<close> (a name cannot end with an
  underscore here). \<open>map_\<close> is a \<open>std::map\<close>: its entries are kept in ascending
  key order and keys are unique, so it is an association list sorted by key.
  \<open>find\<close> is \<open>map_of\<close>, \<open>map_[key] = value\<close> is \<open>map_set\<close>.
\<close>

type_synonym item_type = "(string \<times> string) list"

record setting =
  recursion_level :: nat
  smap :: item_type
  reserve :: string

fun map_set :: "string \<Rightarrow> string \<Rightarrow> item_type \<Rightarrow> item_type" where
  "map_set k v [] = [(k, v)]"
| "map_set k v ((k', v') # rest) =
     (if k < k' then (k, v) # (k', v') # rest
      else if k = k' then (k, v) # rest
      else (k', v') # map_set k v rest)"

text \<open>The invariant of a \<open>std::map\<close>: strictly ascending keys.\<close>

definition map_ok :: "item_type \<Rightarrow> bool" where
  "map_ok m = (sorted_wrt (<) (map fst m))"

text \<open>The constructor \<open>setting(size_t level = 3)\<close>.\<close>

definition new_setting :: "nat \<Rightarrow> setting" where
  "new_setting level = \<lparr>recursion_level = level, smap = [], reserve = []\<rparr>"

subsection \<open>\<open>parse_once\<close>\<close>

datatype pstate = PS_UNKNOW | PS_ESCAPE | PS_DOLLAR | PS_FETCHKEY | PS_REPLACE
  | PS_FINISH | PS_REPLACE_FINISH

text \<open>
  The local variables of the loop. \<open>pch\<close> is the input from the current position
  on; the character under the pointer is its head, or the terminating NUL when it is
  empty.
\<close>

record pconf =
  state :: pstate
  brace_open :: bool
  key :: string
  out :: string
  pch :: string

definition cur :: "string \<Rightarrow> char" where
  "cur p = (case p of [] \<Rightarrow> NUL | c # _ \<Rightarrow> c)"

text \<open>The first \<open>if\<close> chain of the loop body: the new value of \<open>state\<close>.\<close>

definition next_state :: "pstate \<Rightarrow> char \<Rightarrow> pstate" where
  "next_state st ch =
     (if ch = BSLASH then PS_ESCAPE
      else if ch = NUL then (if st = PS_FETCHKEY then PS_REPLACE_FINISH else PS_FINISH)
      else if ch = DOLLAR \<and> st \<noteq> PS_ESCAPE then PS_DOLLAR
      else if st = PS_DOLLAR then PS_FETCHKEY
      else if st = PS_FETCHKEY \<and> \<not> check_identifier ch \<and> ch \<noteq> LBRACE then PS_REPLACE
      else if st \<noteq> PS_FETCHKEY then PS_UNKNOW
      else st)"

text \<open>
  The replace branch without the pointer:
  \<^verbatim>\<open>
  item_type::const_iterator found = map_.find(key);
  if (found != map_.end()) {
      out->append(found->second);
      key.clear();
  }
  \<close>
\<close>

definition replace_key :: "item_type \<Rightarrow> pconf \<Rightarrow> pconf" where
  "replace_key m c =
     (case map_of m (key c) of
        Some v \<Rightarrow> c\<lparr>key := [], out := out c @ v\<rparr>
      | None \<Rightarrow> c)"

text \<open>
  One iteration: the body and the \<open>pch++\<close> of the loop header. In the replace branch
  \<open>pch--\<close> followed by \<open>pch++\<close> leaves the pointer where it is.
\<close>

definition step :: "item_type \<Rightarrow> pconf \<Rightarrow> pconf" where
  "step m c = (let ch = cur (pch c); st = next_state (state c) ch in
     if st = PS_UNKNOW then
       c\<lparr>state := st, out := out c @ [ch], pch := tl (pch c)\<rparr>
     else if st = PS_FETCHKEY then
       c\<lparr>state := st,
         brace_open := (brace_open c \<or> ch = LBRACE),
         key := (if check_identifier ch then key c @ [ch] else key c),
         pch := tl (pch c)\<rparr>
     else if st = PS_REPLACE \<or> st = PS_REPLACE_FINISH then
       (replace_key m c)\<lparr>state := st,
         pch := (if brace_open c \<and> ch = RBRACE then tl (pch c) else pch c)\<rparr>
     else c\<lparr>state := st, pch := tl (pch c)\<rparr>)"

definition finished :: "pconf \<Rightarrow> bool" where
  "finished c = (state c = PS_FINISH \<or> state c = PS_REPLACE_FINISH)"

function parse_run :: "item_type \<Rightarrow> pconf \<Rightarrow> string" where
  "parse_run m c = (let c' = step m c in if finished c' then out c' else parse_run m c')"
  by pat_completeness auto
termination
proof (relation "measure (\<lambda>(m, c). 2 * length (pch c) + (if state c = PS_FETCHKEY then 1 else 0))")
  show "wf (measure (\<lambda>(m :: item_type, c).
          2 * length (pch c) + (if state c = PS_FETCHKEY then 1 else (0 :: nat))))"
    by simp
next
  fix m :: item_type and c c' :: pconf
  assume c': "c' = step m c" and nf: "\<not> finished c'"
  have "2 * length (pch (step m c)) + (if state (step m c) = PS_FETCHKEY then 1 else 0)
      < 2 * length (pch c) + (if state c = PS_FETCHKEY then 1 else 0)"
  proof (cases "pch c")
    case Nil
    have "next_state (state c) NUL = PS_FINISH \<or> next_state (state c) NUL = PS_REPLACE_FINISH"
      by (simp add: next_state_def NUL_def BSLASH_def)
    then have "finished (step m c)"
      using Nil by (auto simp: step_def finished_def cur_def Let_def)
    with nf c' show ?thesis by simp
  next
    case (Cons ch cs)
    show ?thesis
    proof (cases "next_state (state c) ch = PS_REPLACE")
      case True
      then have "state c = PS_FETCHKEY"
        by (simp add: next_state_def split: if_splits)
      with True Cons show ?thesis
        by (simp add: step_def cur_def Let_def replace_key_def split: option.splits)
    next
      case False
      with Cons nf c' show ?thesis
        by (auto simp: step_def finished_def cur_def Let_def)
    qed
  qed
  then show "((m, c'), m, c)
    \<in> measure (\<lambda>(m, c). 2 * length (pch c) + (if state c = PS_FETCHKEY then 1 else 0))"
    using c' by simp
qed

declare parse_run.simps [simp del]

definition parse_once :: "item_type \<Rightarrow> string \<Rightarrow> string" where
  "parse_once m str =
     parse_run m \<lparr>state = PS_UNKNOW, brace_open = False, key = [], out = [], pch = str\<rparr>"



subsection \<open>\<open>parse_recursive\<close> and \<open>get_value\<close>\<close>

text \<open>
  \<^verbatim>\<open>
  std::string lhs(str), rhs;
  for (size_t i = 0; i < recursion_level && str.find('$') < str.npos; i++) {
      parse_once(lhs, &rhs);
      lhs = rhs;
  }
  *out = lhs;
  \<close>
\<close>

function parse_recursive_loop :: "setting \<Rightarrow> string \<Rightarrow> nat \<Rightarrow> string \<Rightarrow> string" where
  "parse_recursive_loop s str i lhs =
     (if i < recursion_level s \<and> find_chr str DOLLAR 0 < npos
      then parse_recursive_loop s str (i + 1) (parse_once (smap s) lhs)
      else lhs)"
  by pat_completeness auto
termination
  by (relation "measure (\<lambda>(s, str, i, lhs). recursion_level s - i)") auto

declare parse_recursive_loop.simps [simp del]

definition parse_recursive :: "setting \<Rightarrow> string \<Rightarrow> string" where
  "parse_recursive s str = parse_recursive_loop s str 0 str"

text \<open>
  \<open>get_value\<close> is \<open>const\<close> but writes the \<open>mutable\<close> member \<open>reserve_\<close>; it
  returns its result together with the object.
\<close>

definition get_value :: "string \<Rightarrow> setting \<Rightarrow> bool \<times> setting" where
  "get_value k s =
     (case map_of (smap s) k of
        Some v \<Rightarrow> (True, s\<lparr>reserve := parse_recursive s v\<rparr>)
      | None \<Rightarrow> (False, s))"

subsection \<open>The typed getters\<close>

text \<open>
  \<open>atoi\<close>, \<open>atol\<close>, \<open>atoll\<close> and \<open>strtod\<close> belong to the C library and are
  parameters. A \<open>double\<close> is the real number it denotes. Every getter evaluates
  \<open>get_value(key) ? conv(reserve_.c_str()) : defval\<close> and converts the result to its
  declared return type; \<open>get_longlong\<close> and \<open>get_double\<close> are both declared to
  return \<open>long\<close>.
\<close>

type_synonym c_int = "32 word"
type_synonym c_long = "64 word"
type_synonym c_longlong = "64 word"

text \<open>
  The conversion of a \<open>double\<close> to \<open>long\<close> discards the fractional part
  (truncation towards zero). When the truncated value does not fit \<open>long\<close> the C++
  conversion has undefined behaviour: the result is \<open>None\<close>.
\<close>

definition trunc_zero :: "real \<Rightarrow> int" where
  "trunc_zero r = (if 0 \<le> r then \<lfloor>r\<rfloor> else \<lceil>r\<rceil>)"

definition long_of_double :: "real \<Rightarrow> c_long option" where
  "long_of_double r = (let t = trunc_zero r in
     if - (2 ^ 63) \<le> t \<and> t < 2 ^ 63 then Some (word_of_int t) else None)"

definition long_of_longlong :: "c_longlong \<Rightarrow> c_long" where
  "long_of_longlong x = x"

definition get_int :: "(string \<Rightarrow> c_int) \<Rightarrow> string \<Rightarrow> c_int \<Rightarrow> setting \<Rightarrow> c_int \<times> setting" where
  "get_int atoi k defval s =
     (case get_value k s of
        (True, s') \<Rightarrow> (atoi (c_str (reserve s')), s')
      | (False, s') \<Rightarrow> (defval, s'))"

definition get_long :: "(string \<Rightarrow> c_long) \<Rightarrow> string \<Rightarrow> c_long \<Rightarrow> setting \<Rightarrow> c_long \<times> setting" where
  "get_long atol k defval s =
     (case get_value k s of
        (True, s') \<Rightarrow> (atol (c_str (reserve s')), s')
      | (False, s') \<Rightarrow> (defval, s'))"

definition get_longlong ::
  "(string \<Rightarrow> c_longlong) \<Rightarrow> string \<Rightarrow> c_longlong \<Rightarrow> setting \<Rightarrow> c_long \<times> setting" where
  "get_longlong atoll k defval s =
     (case get_value k s of
        (True, s') \<Rightarrow> (long_of_longlong (atoll (c_str (reserve s'))), s')
      | (False, s') \<Rightarrow> (long_of_longlong defval, s'))"

definition get_double ::
  "(string \<Rightarrow> real) \<Rightarrow> string \<Rightarrow> real \<Rightarrow> setting \<Rightarrow> c_long option \<times> setting" where
  "get_double strtod k defval s =
     (case get_value k s of
        (True, s') \<Rightarrow> (long_of_double (strtod (c_str (reserve s'))), s')
      | (False, s') \<Rightarrow> (long_of_double defval, s'))"

text \<open>\<open>get_cstr\<close> returns a C string; the null pointer is \<open>None\<close>.\<close>

definition get_cstr :: "string \<Rightarrow> string option \<Rightarrow> setting \<Rightarrow> string option \<times> setting" where
  "get_cstr k defval s =
     (case get_value k s of
        (True, s') \<Rightarrow> (Some (c_str (reserve s')), s')
      | (False, s') \<Rightarrow> (defval, s'))"

subsection \<open>\<open>get_vector\<close>\<close>

datatype error = Out_of_range | Runtime_error

text \<open>
  \<^verbatim>\<open>
  for (pos = 0; pos < reserve_.npos; pos = break_pos + 1) {
      break_pos = reserve_.find(',', pos);
      if (break_pos == reserve_.npos)
          break_pos = reserve_.npos - 1;
      trim(reserve_.substr(pos, break_pos - pos), &s);
      if (!s.empty())
          out->push_back(s);
  }
  \<close>
\<close>

function vector_loop :: "string \<Rightarrow> nat \<Rightarrow> string list \<Rightarrow> error + string list" where
  "vector_loop r pos outv =
     (if pos < npos then
        (let found = find_chr r (CHR '','') pos;
             break_pos = (if found = npos then npos - 1 else found)
         in if length r < pos then Inl Out_of_range
            else let s = trim (substr r pos (break_pos - pos))
                 in vector_loop r (break_pos + 1) (if s \<noteq> [] then outv @ [s] else outv))
      else Inr outv)"
  by pat_completeness auto
termination
  by (relation "measure (\<lambda>(r, pos, outv). npos - pos)") (auto simp: find_chr_def Let_def)

declare vector_loop.simps [simp del]

definition get_vector ::
  "string \<Rightarrow> string list \<Rightarrow> setting \<Rightarrow> error + (bool \<times> string list \<times> setting)" where
  "get_vector k outv s =
     (case get_value k s of
        (False, s') \<Rightarrow> Inr (False, outv, s')
      | (True, s') \<Rightarrow>
          (case vector_loop (reserve s') 0 outv of
             Inl e \<Rightarrow> Inl e
           | Inr outv' \<Rightarrow> Inr (True, outv', s')))"

subsection \<open>\<open>insert\<close>, \<open>dump\<close> and \<open>read_from_file\<close>\<close>

text \<open>
  \<open>int break_pos = s.find("=")\<close> keeps the low 32 bits of the \<open>size_t\<close> result, read
  as two's complement, so \<open>npos\<close> becomes \<open>-1\<close>. Passing \<open>break_pos\<close> or
  \<open>break_pos + 1\<close> to \<open>substr\<close> converts the \<open>int\<close> back to \<open>size_t\<close>.
\<close>

definition int_of_size_t :: "nat \<Rightarrow> int" where
  "int_of_size_t n = sint (word_of_nat n :: 32 word)"

definition size_t_of_int :: "int \<Rightarrow> nat" where
  "size_t_of_int i = unat (word_of_int i :: 64 word)"

definition int_plus :: "int \<Rightarrow> int \<Rightarrow> int" where
  "int_plus a b = sint (word_of_int (a + b) :: 32 word)"

text \<open>
  \<^verbatim>\<open>
  int break_pos = s.find("=");
  trim(s.substr(0, break_pos), &key);
  trim(s.substr(break_pos + 1), &value);
  if (!key.empty())
      map_[key] = value;
  \<close>
\<close>

definition insert_line :: "string \<Rightarrow> setting \<Rightarrow> error + setting" where
  "insert_line s st =
     (let break_pos = int_of_size_t (find_chr s (CHR ''='') 0);
          k = trim (substr s 0 (size_t_of_int break_pos));
          pos = size_t_of_int (int_plus break_pos 1)
      in if length s < pos then Inl Out_of_range
         else let v = trim (substr s pos npos)
              in Inr (if k \<noteq> [] then st\<lparr>smap := map_set k v (smap st)\<rparr> else st))"

fun dump_loop :: "item_type \<Rightarrow> string \<Rightarrow> string" where
  "dump_loop [] outs = outs"
| "dump_loop ((k, v) # rest) outs = dump_loop rest (outs @ k @ '' = '' @ v @ [CHR 0x0A])"

definition dump :: "setting \<Rightarrow> string" where
  "dump st = dump_loop (smap st) []"

text \<open>
  \<open>read_from_file\<close> on the content of the file (\<open>None\<close> when it cannot be opened).
  \<open>std::getline\<close> sets \<open>eof\<close> when it meets the end of the content before a newline,
  and the loop \<open>while (!(std::getline(ifs, line).eof()))\<close> then ends without using
  the characters read.
\<close>

function read_loop :: "string \<Rightarrow> setting \<Rightarrow> error + setting" where
  "read_loop content st =
     (if CHR 0x0A \<in> set content then
        (let line = takeWhile (\<lambda>x. x \<noteq> CHR 0x0A) content;
             rest = tl (dropWhile (\<lambda>x. x \<noteq> CHR 0x0A) content);
             trimmed_line = trim line
         in if trimmed_line \<noteq> [] \<and> hd trimmed_line \<noteq> CHR ''#'' then
              (case insert_line trimmed_line st of
                 Inl e \<Rightarrow> Inl e
               | Inr st' \<Rightarrow> read_loop rest st')
            else read_loop rest st)
      else Inr st)"
  by pat_completeness auto
termination
proof (relation "measure (\<lambda>(content, st). length content)")
  show "wf (measure (\<lambda>(content, st). length content))" by simp
next
  fix content :: string and st :: setting and x xa xb and x2 :: setting
  assume a: "CHR 0x0A \<in> set content"
    and r: "xa = tl (dropWhile (\<lambda>x. x \<noteq> CHR 0x0A) content)"
  have "dropWhile (\<lambda>x. x \<noteq> CHR 0x0A) content \<noteq> []" using a by (simp add: dropWhile_eq_Nil_conv)
  then have "length xa < length (dropWhile (\<lambda>x. x \<noteq> CHR 0x0A) content)"
    using r by (cases "dropWhile (\<lambda>x. x \<noteq> CHR 0x0A) content") auto
  also have "\<dots> \<le> length content" by (rule length_dropWhile_le)
  finally have "length xa < length content" .
  then show "((xa, x2), content, st) \<in> measure (\<lambda>(content, st). length content)"
    and "((xa, st), content, st) \<in> measure (\<lambda>(content, st). length content)" by simp_all
qed

declare read_loop.simps [simp del]

definition read_from_file :: "string option \<Rightarrow> setting \<Rightarrow> error + setting" where
  "read_from_file file st =
     (case file of None \<Rightarrow> Inl Runtime_error | Some content \<Rightarrow> read_loop content st)"

subsection \<open>Stores that survive a dump and a reload\<close>

text \<open>
  The line that \<open>dump\<close> writes for an entry, and the entries whose line
  \<open>read_from_file\<close> reads back unchanged: the key is not empty, has no whitespace at
  either end, does not start with \<open>#\<close> and contains neither \<open>=\<close> nor a newline; the
  value has no whitespace at either end and no newline; the line is shorter than
  \<open>2^31\<close> characters, so that the position of \<open>=\<close> fits the \<open>int\<close> of \<open>insert\<close>.
\<close>

definition line_of :: "string \<times> string \<Rightarrow> string" where
  "line_of e = fst e @ '' = '' @ snd e @ [CHR 0x0A]"

definition plain_key :: "string \<Rightarrow> bool" where
  "plain_key k = (k \<noteq> [] \<and> hd k \<notin> set whitespace \<and> last k \<notin> set whitespace \<and>
     hd k \<noteq> CHR ''#'' \<and> CHR ''='' \<notin> set k \<and> CHR 0x0A \<notin> set k)"

definition plain_value :: "string \<Rightarrow> bool" where
  "plain_value v = ((v = [] \<or> (hd v \<notin> set whitespace \<and> last v \<notin> set whitespace)) \<and>
     CHR 0x0A \<notin> set v)"

definition plain_entry :: "string \<times> string \<Rightarrow> bool" where
  "plain_entry e = (plain_key (fst e) \<and> plain_value (snd e) \<and>
     length (fst e) + length (snd e) + 3 < 2 ^ 31)"

section \<open>Facts about the library functions\<close>

lemma npos_pos: "0 < npos"
  by (simp add: npos_def)

lemma length_takeWhile_lt:
  "x \<in> set xs \<Longrightarrow> \<not> P x \<Longrightarrow> length (takeWhile P xs) < length xs"
  by (induction xs) auto

lemma find_chr_absent: "c \<notin> set (drop pos s) \<Longrightarrow> find_chr s c pos = npos"
  by (simp add: find_chr_def)

lemma find_chr_present:
  "c \<in> set (drop pos s) \<Longrightarrow>
   find_chr s c pos = pos + length (takeWhile (\<lambda>x. x \<noteq> c) (drop pos s))"
  by (simp add: find_chr_def)

lemma find_chr_lt_length:
  assumes "c \<in> set (drop pos s)"
  shows "find_chr s c pos < length s"
proof -
  have "length (takeWhile (\<lambda>x. x \<noteq> c) (drop pos s)) < length (drop pos s)"
    using assms by (intro length_takeWhile_lt [of c]) simp_all
  then show ?thesis using assms by (simp add: find_chr_present)
qed

lemma find_chr_lt_npos_iff:
  assumes "length s < npos"
  shows "find_chr s c 0 < npos \<longleftrightarrow> c \<in> set s"
proof (cases "c \<in> set s")
  case True
  then have "find_chr s c 0 < length s" by (intro find_chr_lt_length) simp
  with assms True show ?thesis by simp
next
  case False
  then show ?thesis by (simp add: find_chr_absent)
qed

lemma int_of_size_t_npos: "int_of_size_t npos = -1"
  by (simp add: int_of_size_t_def npos_def)

lemma size_t_of_int_m1: "size_t_of_int (-1) = npos"
  by (simp add: size_t_of_int_def npos_def unsigned_minus_1_eq_mask mask_eq_exp_minus_1)

lemma int_plus_m1: "size_t_of_int (int_plus (-1) 1) = 0"
  by (simp add: size_t_of_int_def int_plus_def)

lemma int_of_size_t_small:
  assumes "n < 2 ^ 31"
  shows "int_of_size_t n = int n"
proof -
  have "int n < 2 ^ 31" using assms by (simp flip: of_nat_less_iff)
  moreover have "- (2 ^ 31) \<le> int n" by (simp add: order_trans [of _ 0])
  ultimately have "signed_take_bit 31 (int n) = int n"
    by (rule signed_take_bit_int_eq_self [rotated])
  then show ?thesis by (simp add: int_of_size_t_def signed_of_nat)
qed

lemma size_t_of_int_small:
  assumes "n < 2 ^ 31"
  shows "size_t_of_int (int n) = n"
proof -
  have "n < 2 ^ 64" using assms by (rule less_trans) simp
  then have "take_bit 64 n = n" by (rule take_bit_nat_eq_self)
  then show ?thesis by (simp add: size_t_of_int_def unsigned_of_nat)
qed

lemma int_plus_small:
  assumes "n + 1 < 2 ^ 31"
  shows "int_plus (int n) 1 = int (n + 1)"
proof -
  have "int_plus (int n) 1 = int_of_size_t (n + 1)"
    by (simp add: int_plus_def int_of_size_t_def add.commute)
  then show ?thesis using assms by (simp add: int_of_size_t_small)
qed

lemma map_of_map_set: "map_of (map_set k v m) = (map_of m)(k \<mapsto> v)"
  by (induction m) (auto simp: fun_eq_iff)

lemma map_set_append: "\<forall>k' \<in> set (map fst m). k' < k \<Longrightarrow> map_set k v m = m @ [(k, v)]"
  by (induction m) (auto simp: not_less_iff_gr_or_eq)

lemma keys_map_set: "fst ` set (map_set k v m) = insert k (fst ` set m)"
  by (induction m) force+

lemma map_ok_map_set: "map_ok m \<Longrightarrow> map_ok (map_set k v m)"
proof (induction m)
  case Nil
  then show ?case by (simp add: map_ok_def)
next
  case (Cons e m)
  obtain k' v' where e: "e = (k', v')" by (cases e)
  have above: "\<forall>x \<in> set m. k' < fst x" and ok: "map_ok m"
    using Cons.prems e by (simp_all add: map_ok_def)
  consider "k < k'" | "k = k'" | "k' < k" by (rule less_linear [THEN disjE]) auto
  then show ?case
  proof cases
    case 1
    then have "\<forall>x \<in> set m. k < fst x" using above by (auto intro: less_trans)
    then show ?thesis using 1 above ok e by (simp add: map_ok_def)
  next
    case 2
    then show ?thesis using above ok e by (simp add: map_ok_def)
  next
    case 3
    have "\<forall>x \<in> set (map_set k v m). k' < fst x"
    proof
      fix x assume "x \<in> set (map_set k v m)"
      then have "fst x \<in> fst ` set (map_set k v m)" by (rule imageI)
      then have "fst x \<in> insert k (fst ` set m)" by (simp only: keys_map_set)
      then show "k' < fst x" using 3 above by auto
    qed
    moreover have "\<not> k < k'" "k \<noteq> k'" using 3 by auto
    ultimately show ?thesis using Cons.IH [OF ok] e by (simp add: map_ok_def)
  qed
qed

section \<open>\<open>trim\<close>\<close>

text \<open>
  When \<open>trim\<close> reaches its \<open>substr\<close> call, \<open>begin\<close> is an index into the string,
  so the call cannot throw.
\<close>

lemma trim_begin_in_range:
  assumes "\<not> (\<forall>x \<in> set s. x \<in> set ws)"
  shows "find_first_not_of s ws < length s"
proof -
  from assms obtain x where "x \<in> set s" "x \<notin> set ws" by blast
  then have "length (takeWhile (\<lambda>x. x \<in> set ws) s) < length s"
    by (intro length_takeWhile_lt [of x]) simp_all
  with assms show ?thesis by (auto simp: find_first_not_of_def)
qed

lemma not_all_ws_hd: "s \<noteq> [] \<Longrightarrow> hd s \<notin> set ws \<Longrightarrow> \<not> (\<forall>x \<in> set s. x \<in> set ws)"
  by (cases s) auto

lemma not_all_ws_last: "s \<noteq> [] \<Longrightarrow> last s \<notin> set ws \<Longrightarrow> \<not> (\<forall>x \<in> set s. x \<in> set ws)"
  using last_in_set by blast

lemma find_first_not_of_some:
  "\<not> (\<forall>x \<in> set s. x \<in> set ws) \<Longrightarrow>
   find_first_not_of s ws = length (takeWhile (\<lambda>x. x \<in> set ws) s)"
  by (auto simp: find_first_not_of_def)

lemma find_last_not_of_some:
  "\<not> (\<forall>x \<in> set s. x \<in> set ws) \<Longrightarrow>
   find_last_not_of s ws = length s - 1 - length (takeWhile (\<lambda>x. x \<in> set ws) (rev s))"
  by (auto simp: find_last_not_of_def)

lemma trim_Nil: "trim [] = []"
  by (simp add: trim_def find_first_not_of_def)

lemma ws_simps: "CHR '' '' \<in> set whitespace" "CHR ''='' \<notin> set whitespace"
  "CHR 0x0A \<in> set whitespace"
  by (simp_all add: whitespace_def)

lemmas eval_trim = trim_def find_first_not_of_def find_last_not_of_def whitespace_def
  substr_def npos_def

lemma trim_no_leading:
  assumes "s \<noteq> []" "hd s \<notin> set whitespace"
  shows "trim s = rev (dropWhile (\<lambda>x. x \<in> set whitespace) (rev s))"
proof -
  let ?n = "length (takeWhile (\<lambda>x. x \<in> set whitespace) (rev s))"
  have na: "\<not> (\<forall>x \<in> set s. x \<in> set whitespace)" using assms by (rule not_all_ws_hd)
  have b: "find_first_not_of s whitespace = 0"
    unfolding find_first_not_of_some [OF na] using assms by (cases s) simp_all
  from na obtain x where "x \<in> set (rev s)" "x \<notin> set whitespace" by auto
  then have n: "?n < length s"
    using length_takeWhile_lt [of x "rev s" "\<lambda>x. x \<in> set whitespace"] by simp
  have e: "find_last_not_of s whitespace + 1 = length s - ?n"
    using n by (simp add: find_last_not_of_some [OF na])
  have "trim s = take (length s - ?n) s"
    using b e npos_pos by (simp add: trim_def substr_def Let_def)
  also have "\<dots> = rev (drop ?n (rev s))"
    by (simp add: rev_drop)
  also have "\<dots> = rev (dropWhile (\<lambda>x. x \<in> set whitespace) (rev s))"
    by (simp add: dropWhile_eq_drop)
  finally show ?thesis .
qed

lemma trim_no_trailing:
  assumes "s \<noteq> []" "last s \<notin> set whitespace" "length s < npos"
  shows "trim s = dropWhile (\<lambda>x. x \<in> set whitespace) s"
proof -
  let ?b = "length (takeWhile (\<lambda>x. x \<in> set whitespace) s)"
  have na: "\<not> (\<forall>x \<in> set s. x \<in> set whitespace)" using assms(1,2) by (rule not_all_ws_last)
  have b: "find_first_not_of s whitespace = ?b" by (rule find_first_not_of_some [OF na])
  have "?b \<le> length s" by (rule length_takeWhile_le)
  then have bn: "?b \<noteq> npos" using assms(3) by simp
  have "takeWhile (\<lambda>x. x \<in> set whitespace) (rev s) = []"
    using assms(1,2) by (simp add: takeWhile_eq_Nil_iff hd_rev)
  then have e: "find_last_not_of s whitespace + 1 = length s"
    using assms(1) by (simp add: find_last_not_of_some [OF na])
  have "trim s = take (length s) (drop ?b s)"
    using b bn e by (simp add: trim_def substr_def Let_def)
  also have "\<dots> = dropWhile (\<lambda>x. x \<in> set whitespace) s"
    by (simp add: dropWhile_eq_drop)
  finally show ?thesis .
qed

text \<open>
  C4. The claim: \<open>trim\<close> removes all leading and all trailing whitespace. The code
  passes \<open>end + 1\<close> as the length to \<open>substr\<close>, which is the right length only when
  \<open>begin = 0\<close>; with \<open>begin\<close> leading whitespace characters, up to \<open>begin\<close> trailing
  ones survive. On \<open>" a "\<close> the code returns \<open>"a "\<close>, not \<open>"a"\<close>.
\<close>

theorem trim_keeps_trailing_space: "trim '' a '' = ''a ''"
  by (simp add: trim_def find_first_not_of_def find_last_not_of_def whitespace_def
      substr_def npos_def)

section \<open>One pass: \<open>parse_once\<close>\<close>

lemma parse_run_continue: "\<not> finished (step m c) \<Longrightarrow> parse_run m c = parse_run m (step m c)"
  by (subst parse_run.simps) (simp add: Let_def)

lemma parse_run_finish: "finished (step m c) \<Longrightarrow> parse_run m c = out (step m c)"
  by (subst parse_run.simps) (simp add: Let_def)

lemma special_chars_distinct:
  "BSLASH \<noteq> NUL" "DOLLAR \<noteq> NUL" "DOLLAR \<noteq> BSLASH" "RBRACE \<noteq> NUL" "RBRACE \<noteq> BSLASH"
  "RBRACE \<noteq> DOLLAR" "RBRACE \<noteq> LBRACE" "LBRACE \<noteq> NUL" "LBRACE \<noteq> BSLASH" "LBRACE \<noteq> DOLLAR"
  "\<not> check_identifier RBRACE" "\<not> check_identifier LBRACE" "\<not> check_identifier DOLLAR"
  "\<not> check_identifier BSLASH" "\<not> check_identifier NUL"
  by (simp_all add: BSLASH_def NUL_def DOLLAR_def RBRACE_def LBRACE_def check_identifier_def
      isalnum_def)

text \<open>
  C3. The claim: when a reference ends, exactly the identifier collected for that
  reference is looked up, also when an unresolved reference precedes it. The code
  clears \<open>key\<close> only inside the branch of a successful lookup, so after the unresolved
  \<open>$x\<close> the next reference \<open>$y\<close> is looked up as \<open>xy\<close>: with \<open>y = Y\<close> in the store, one
  pass over \<open>"$x $y"\<close> gives \<open>" "\<close>, although one pass over \<open>"$y"\<close> alone gives
  \<open>"Y"\<close>. A \<open>$\<close> that ends an identifier starts the next reference without any
  lookup, so \<open>"$a$b"\<close> looks up \<open>ab\<close>: with \<open>a = A\<close> and \<open>b = B\<close> the pass gives \<open>""\<close>.
\<close>

theorem parse_once_stale_key:
  "parse_once [(''y'', ''Y'')] ''$x $y'' = '' '' \<and>
   parse_once [(''y'', ''Y'')] ''$y'' = ''Y'' \<and>
   parse_once [(''a'', ''A''), (''b'', ''B'')] ''$a$b'' = []"
  by code_simp




lemma identifier_plain: "check_identifier x \<Longrightarrow> x \<noteq> BSLASH \<and> x \<noteq> NUL \<and> x \<noteq> DOLLAR"
  using special_chars_distinct by auto


lemma replace_key_fields [simp]:
  "pch (replace_key m c) = pch c"
  "brace_open (replace_key m c) = brace_open c"
  "state (replace_key m c) = state c"
  by (simp_all add: replace_key_def split: option.splits)



































section \<open>The passes of \<open>parse_recursive\<close>\<close>

lemma parse_recursive_loop_stop:
  "\<not> find_chr str DOLLAR 0 < npos \<Longrightarrow> parse_recursive_loop s str i lhs = lhs"
  by (subst parse_recursive_loop.simps) simp

lemma parse_recursive_loop_run:
  assumes "find_chr str DOLLAR 0 < npos"
  shows "i \<le> recursion_level s \<Longrightarrow>
         parse_recursive_loop s str i lhs = (parse_once (smap s) ^^ (recursion_level s - i)) lhs"
proof (induction "recursion_level s - i" arbitrary: i lhs)
  case 0
  then show ?case by (subst parse_recursive_loop.simps) simp
next
  case (Suc n)
  then have lt: "i < recursion_level s" and n: "n = recursion_level s - (i + 1)" by simp_all
  have "parse_recursive_loop s str i lhs
        = parse_recursive_loop s str (i + 1) (parse_once (smap s) lhs)"
    using lt assms by (subst parse_recursive_loop.simps) simp
  also have "\<dots> = (parse_once (smap s) ^^ n) (parse_once (smap s) lhs)"
    using Suc.hyps(1) [OF n] lt n by simp
  also have "\<dots> = (parse_once (smap s) ^^ Suc n) lhs"
    by (simp add: funpow_swap1)
  finally show ?case using Suc.hyps(2) by simp
qed

lemma parse_recursive_funpow:
  assumes "length v < npos"
  shows "parse_recursive s v =
         (if DOLLAR \<in> set v then (parse_once (smap s) ^^ recursion_level s) v else v)"
proof (cases "DOLLAR \<in> set v")
  case True
  then have "find_chr v DOLLAR 0 < npos" using assms by (simp add: find_chr_lt_npos_iff)
  then show ?thesis using True
    by (simp add: parse_recursive_def parse_recursive_loop_run)
next
  case False
  then have "\<not> find_chr v DOLLAR 0 < npos" using assms by (simp add: find_chr_lt_npos_iff)
  then show ?thesis using False
    by (simp add: parse_recursive_def parse_recursive_loop_stop)
qed

text \<open>
  C2. For every raw value \<open>v\<close> (a \<open>std::string\<close>, so shorter than \<open>npos\<close>) and
  every store, \<open>parse_recursive\<close> returns \<open>v\<close> itself when \<open>v\<close> contains no \<open>$\<close>
  (no pass runs), and otherwise the result of exactly \<open>recursion_level\<close> passes of
  \<open>parse_once\<close>, each fed with the output of the one before, whatever the
  intermediate results contain: the test of the loop looks at the original string.
\<close>

theorem parse_recursive_passes:
  assumes "length v < npos"
  shows "parse_recursive s v =
         (if DOLLAR \<in> set v then (parse_once (smap s) ^^ recursion_level s) v else v)"
  using assms by (rule parse_recursive_funpow)

theorem parse_recursive_passes_witness:
  "length ''$a'' < npos \<and>
   parse_recursive \<lparr>recursion_level = 2, smap = [(''a'', ''$b''), (''b'', ''c'')], reserve = []\<rparr> ''$a''
     = ''c'' \<and>
   parse_recursive \<lparr>recursion_level = 2, smap = [(''a'', ''$b''), (''b'', ''c'')], reserve = []\<rparr> ''a''
     = ''a''"
proof -
  have l: "length ''$a'' < npos" "length ''a'' < npos" by (simp_all add: npos_def)
  have p1: "parse_once [(''a'', ''$b''), (''b'', ''c'')] ''$a'' = ''$b''" by code_simp
  have p2: "parse_once [(''a'', ''$b''), (''b'', ''c'')] ''$b'' = ''c''" by code_simp
  show ?thesis
    using parse_recursive_passes [OF l(1), of "\<lparr>recursion_level = 2, smap = [(''a'', ''$b''), (''b'', ''c'')], reserve = []\<rparr>"]
      parse_recursive_passes [OF l(2), of "\<lparr>recursion_level = 2, smap = [(''a'', ''$b''), (''b'', ''c'')], reserve = []\<rparr>"]
      l p1 p2
    by (simp add: DOLLAR_def numeral_2_eq_2)
qed

lemma parse_recursive_loop_cong:
  assumes "recursion_level s = recursion_level s'" "smap s = smap s'"
  shows "parse_recursive_loop s str i lhs = parse_recursive_loop s' str i lhs"
proof (induction "recursion_level s - i" arbitrary: i lhs)
  case 0
  then show ?case using assms
    by (subst parse_recursive_loop.simps, subst (2) parse_recursive_loop.simps) simp
next
  case (Suc n)
  then have "n = recursion_level s - (i + 1)" by simp
  then have "parse_recursive_loop s str (i + 1) (parse_once (smap s) lhs)
        = parse_recursive_loop s' str (i + 1) (parse_once (smap s) lhs)"
    by (rule Suc.hyps(1))
  then show ?case using assms
    by (subst parse_recursive_loop.simps, subst (2) parse_recursive_loop.simps) simp
qed

lemma parse_recursive_cong:
  "recursion_level s = recursion_level s' \<Longrightarrow> smap s = smap s' \<Longrightarrow>
   parse_recursive s v = parse_recursive s' v"
  unfolding parse_recursive_def by (rule parse_recursive_loop_cong)

section \<open>Escaped characters\<close>

lemma step_escape:
  assumes "pch c = BSLASH # ch # cs" "ch \<noteq> BSLASH" "ch \<noteq> NUL"
  shows "step m c = c\<lparr>state := PS_ESCAPE, pch := ch # cs\<rparr>"
    and "step m (step m c) = c\<lparr>state := PS_UNKNOW, out := out c @ [ch], pch := cs\<rparr>"
proof -
  show 1: "step m c = c\<lparr>state := PS_ESCAPE, pch := ch # cs\<rparr>"
    using assms by (simp add: step_def Let_def cur_def next_state_def)
  show "step m (step m c) = c\<lparr>state := PS_UNKNOW, out := out c @ [ch], pch := cs\<rparr>"
    unfolding 1 using assms by (simp add: step_def Let_def cur_def next_state_def)
qed

lemma parse_run_escape:
  assumes "pch c = BSLASH # ch # cs" "ch \<noteq> BSLASH" "ch \<noteq> NUL"
  shows "parse_run m c = parse_run m (c\<lparr>state := PS_UNKNOW, out := out c @ [ch], pch := cs\<rparr>)"
proof -
  note s1 = step_escape(1) [OF assms, of m] and s2 = step_escape(2) [OF assms, of m]
  have "\<not> finished (step m c)" using s1 by (simp add: finished_def)
  moreover have "\<not> finished (step m (step m c))" using s2 by (simp add: finished_def)
  ultimately have "parse_run m c = parse_run m (step m (step m c))"
    by (simp add: parse_run_continue)
  then show ?thesis using s2 by simp
qed

lemma parse_run_plain:
  assumes "\<forall>x \<in> set cs. x \<noteq> BSLASH \<and> x \<noteq> NUL \<and> x \<noteq> DOLLAR"
  shows "state c = PS_UNKNOW \<Longrightarrow> pch c = cs \<Longrightarrow> parse_run m c = out c @ cs"
  using assms
proof (induction cs arbitrary: c)
  case Nil
  then have "step m c = c\<lparr>state := PS_FINISH, pch := []\<rparr>"
    by (simp add: step_def Let_def cur_def next_state_def special_chars_distinct(1) [symmetric])
  then show ?case by (simp add: parse_run_finish finished_def)
next
  case (Cons ch cs)
  then have s: "step m c = c\<lparr>state := PS_UNKNOW, out := out c @ [ch], pch := cs\<rparr>"
    by (simp add: step_def Let_def cur_def next_state_def)
  then have "parse_run m c = parse_run m (c\<lparr>state := PS_UNKNOW, out := out c @ [ch], pch := cs\<rparr>)"
    by (simp add: parse_run_continue finished_def)
  also have "\<dots> = (out c @ [ch]) @ cs"
    using Cons.prems by (intro Cons.IH [THEN trans]) simp_all
  finally show ?case by simp
qed

lemma parse_once_escaped_dollar:
  assumes "\<forall>x \<in> set b. check_identifier x"
  shows "parse_once m (BSLASH # DOLLAR # b) = DOLLAR # b"
proof -
  have "parse_once m (BSLASH # DOLLAR # b) =
        parse_run m \<lparr>state = PS_UNKNOW, brace_open = False, key = [], out = [DOLLAR], pch = b\<rparr>"
    unfolding parse_once_def
    by (subst parse_run_escape [where ch = DOLLAR and cs = b])
       (simp_all add: special_chars_distinct)
  also have "\<dots> = [DOLLAR] @ b"
    using assms identifier_plain by (subst parse_run_plain [where cs = b]) auto
  finally show ?thesis by simp
qed

text \<open>
  C1, as amended. In a single pass a backslash followed by a character other than a
  backslash (and before the end of the string) makes the pass copy that character
  verbatim, whatever the character and the state, and the backslash itself is not
  copied to the output. So for an identifier \<open>b\<close> one pass over \<open>\$b\<close> yields \<open>$b\<close>
  without any lookup, and so does \<open>parse_recursive\<close> when \<open>recursion_level\<close> is 1.
\<close>

theorem escape_single_pass:
  "(pch c = BSLASH # ch # cs \<and> ch \<noteq> BSLASH \<and> ch \<noteq> NUL \<longrightarrow>
      parse_run m c = parse_run m (c\<lparr>state := PS_UNKNOW, out := out c @ [ch], pch := cs\<rparr>)) \<and>
   ((\<forall>x \<in> set b. check_identifier x) \<longrightarrow>
      parse_once (smap s) (BSLASH # DOLLAR # b) = DOLLAR # b \<and>
      (recursion_level s = 1 \<and> length b + 2 < npos \<longrightarrow>
         parse_recursive s (BSLASH # DOLLAR # b) = DOLLAR # b))"
proof (intro conjI impI)
  assume "pch c = BSLASH # ch # cs \<and> ch \<noteq> BSLASH \<and> ch \<noteq> NUL"
  then show "parse_run m c = parse_run m (c\<lparr>state := PS_UNKNOW, out := out c @ [ch], pch := cs\<rparr>)"
    by (simp add: parse_run_escape)
next
  assume b: "\<forall>x \<in> set b. check_identifier x"
  then show p: "parse_once (smap s) (BSLASH # DOLLAR # b) = DOLLAR # b"
    by (rule parse_once_escaped_dollar)
  assume "recursion_level s = 1 \<and> length b + 2 < npos"
  then show "parse_recursive s (BSLASH # DOLLAR # b) = DOLLAR # b"
    using p by (simp add: parse_recursive_funpow)
qed

theorem escape_single_pass_witness:
  "parse_run [(''b'', ''X'')]
     \<lparr>state = PS_UNKNOW, brace_open = False, key = [], out = ''a'',
       pch = [BSLASH, DOLLAR, CHR ''b'']\<rparr> = ''a$b'' \<and>
   parse_recursive \<lparr>recursion_level = 1, smap = [(''b'', ''X'')], reserve = []\<rparr>
     [BSLASH, DOLLAR, CHR ''b''] = ''$b''"
proof -
  let ?s = "\<lparr>recursion_level = 1, smap = [(''b'', ''X'')], reserve = []\<rparr>"
  have e: "parse_run [(''b'', ''X'')]
     \<lparr>state = PS_UNKNOW, brace_open = False, key = [], out = ''a$'', pch = ''b''\<rparr> = ''a$b''"
    by code_simp
  have i: "\<forall>x \<in> set ''b''. check_identifier x"
    by (simp add: check_identifier_def isalnum_def)
  show ?thesis
    using escape_single_pass [where c = "\<lparr>state = PS_UNKNOW, brace_open = False, key = [],
          out = ''a'', pch = [BSLASH, DOLLAR, CHR ''b'']\<rparr>" and ch = DOLLAR and cs = "''b''"
          and b = "''b''" and s = ?s and m = "[(''b'', ''X'')]"] e i
    by (simp add: DOLLAR_def BSLASH_def NUL_def npos_def)
qed

text \<open>
  C1 as stated fails: the pass over \<open>\$b\<close> returns \<open>$b\<close>, without the backslash, and with
  the default \<open>recursion_level\<close> 3 and \<open>b = X\<close> in the store the second pass replaces
  that \<open>$b\<close>: the resolved value is \<open>X\<close>.
\<close>

theorem escape_counterexample:
  "parse_once [(''b'', ''X'')] [BSLASH, DOLLAR, CHR ''b''] = ''$b'' \<and>
   parse_recursive \<lparr>recursion_level = 3, smap = [(''b'', ''X'')], reserve = []\<rparr>
     [BSLASH, DOLLAR, CHR ''b''] = ''X''"
proof -
  have p1: "parse_once [(''b'', ''X'')] [BSLASH, DOLLAR, CHR ''b''] = ''$b''" by code_simp
  have p2: "parse_once [(''b'', ''X'')] ''$b'' = ''X''" by code_simp
  have p3: "parse_once [(''b'', ''X'')] ''X'' = ''X''" by code_simp
  have l: "length [BSLASH, DOLLAR, CHR ''b''] < npos" by (simp add: npos_def)
  show ?thesis
    using p1 p2 p3 by (simp add: parse_recursive_funpow [OF l] numeral_3_eq_3)
qed

section \<open>The typed getters\<close>

text \<open>
  C6. The claim: \<open>get_double\<close> returns the parsed floating-point value with its
  fractional part. \<open>get_double\<close> is declared to return \<open>long\<close>, so the value of
  \<open>strtod\<close> is converted to an integer: for the stored value \<open>3.1415926\<close> the result
  is the \<open>long\<close> \<open>3\<close>.
\<close>

theorem get_double_truncates:
  assumes "strtod ''3.1415926'' = 31415926 / 10000000"
  shows "fst (get_double strtod ''double'' 0
           \<lparr>recursion_level = 3, smap = [(''double'', ''3.1415926'')], reserve = []\<rparr>) = Some 3"
proof -
  have "fst (get_double strtod ''double'' 0
           \<lparr>recursion_level = 3, smap = [(''double'', ''3.1415926'')], reserve = []\<rparr>)
        = long_of_double (strtod ''3.1415926'')"
    by (simp add: get_double_def get_value_def parse_recursive_def parse_recursive_loop.simps
        find_chr_def DOLLAR_def c_str_def NUL_def)
  also have "\<dots> = long_of_double (31415926 / 10000000)"
    by (simp only: assms)
  also have "\<dots> = Some 3"
    by (simp add: long_of_double_def trunc_zero_def)
  finally show ?thesis .
qed

theorem get_double_truncates_witness:
  "(\<lambda>s. 31415926 / 10000000 :: real) ''3.1415926'' = 31415926 / 10000000 \<and>
   fst (get_double (\<lambda>s. 31415926 / 10000000) ''double'' 0
          \<lparr>recursion_level = 3, smap = [(''double'', ''3.1415926'')], reserve = []\<rparr>) = Some 3"
  using get_double_truncates [of "\<lambda>s. 31415926 / 10000000"] by simp

text \<open>
  C8. The claim: on an absent key every typed getter returns the default exactly and
  leaves the map unchanged. \<open>get_double\<close> converts its \<open>double\<close> default to the
  return type \<open>long\<close>: with the default \<open>0.5\<close> on an empty store it returns \<open>0\<close>.
\<close>

theorem get_double_default_truncated:
  "get_double strtod ''nokey'' (1 / 2) (new_setting 3) = (Some 0, new_setting 3)"
  by (simp add: get_double_def get_value_def new_setting_def long_of_double_def trunc_zero_def)

text \<open>
  The other getters do return the default on an absent key, and no getter changes the
  object then.
\<close>

lemma get_value_absent: "map_of (smap s) k = None \<Longrightarrow> get_value k s = (False, s)"
  by (simp add: get_value_def)

lemma getters_absent:
  assumes "map_of (smap s) k = None"
  shows "get_int atoi k di s = (di, s)"
    and "get_long atol k dl s = (dl, s)"
    and "get_longlong atoll k dll s = (dll, s)"
    and "get_cstr k dc s = (dc, s)"
    and "get_double strtod k dd s = (long_of_double dd, s)"
  using assms
  by (simp_all add: get_int_def get_long_def get_longlong_def get_cstr_def get_double_def
      get_value_absent long_of_longlong_def)

lemma get_cstr_cong:
  assumes "recursion_level s = recursion_level s'" "smap s = smap s'"
  shows "fst (get_cstr K d s) = fst (get_cstr K d s')"
proof (cases "map_of (smap s') K")
  case None
  then show ?thesis using assms(2) by (simp add: get_cstr_def get_value_def)
next
  case (Some v)
  have "parse_recursive s v = parse_recursive s' v" using assms by (rule parse_recursive_cong)
  then show ?thesis using Some assms(2) by (simp add: get_cstr_def get_value_def)
qed

section \<open>\<open>get_vector\<close>\<close>

lemma vector_loop_end: "vector_loop r npos outv = Inr outv"
  by (subst vector_loop.simps) simp

lemma vector_loop_last:
  assumes "pos \<le> length r" "length r < npos" "CHR '','' \<notin> set (drop pos r)"
  shows "vector_loop r pos outv =
         Inr (if trim (drop pos r) \<noteq> [] then outv @ [trim (drop pos r)] else outv)"
proof -
  have "take (npos - 1 - pos) (drop pos r) = drop pos r" using assms by simp
  moreover have "npos - 1 + 1 = npos" using npos_pos by simp
  ultimately show ?thesis using assms
    by (subst vector_loop.simps) (simp add: find_chr_absent substr_def Let_def vector_loop_end)
qed

lemma vector_loop_comma:
  assumes "pos \<le> length r" "length r < npos" "CHR '','' \<in> set (drop pos r)"
  shows "vector_loop r pos outv =
         (let seg = takeWhile (\<lambda>x. x \<noteq> CHR '','') (drop pos r)
          in vector_loop r (pos + length seg + 1)
               (if trim seg \<noteq> [] then outv @ [trim seg] else outv))"
proof -
  let ?seg = "takeWhile (\<lambda>x. x \<noteq> CHR '','') (drop pos r)"
  have f: "find_chr r (CHR '','') pos = pos + length ?seg"
    using assms by (simp add: find_chr_present)
  have "find_chr r (CHR '','') pos < length r" using assms by (simp add: find_chr_lt_length)
  then have ne: "pos + length ?seg \<noteq> npos" using assms f by simp
  have "take (length ?seg) (drop pos r) = ?seg"
    by (metis takeWhile_eq_take)
  then show ?thesis using assms f ne
    by (subst vector_loop.simps) (simp add: substr_def Let_def)
qed

text \<open>
  C7. The claim: \<open>get_vector\<close> trims each segment. The segments go through \<open>trim\<close>,
  so a segment with whitespace on both sides keeps trailing whitespace: for the value
  \<open>"x, a ,y"\<close> the code yields \<open>["x", "a ", "y"]\<close>.
\<close>

theorem get_vector_keeps_trailing_space:
  "get_vector ''v'' []
     \<lparr>recursion_level = 3, smap = [(''v'', ''x, a ,y'')], reserve = []\<rparr>
   = Inr (True, [''x'', ''a '', ''y''],
          \<lparr>recursion_level = 3, smap = [(''v'', ''x, a ,y'')], reserve = ''x, a ,y''\<rparr>)"
  apply (simp add: get_vector_def get_value_def parse_recursive_def
      parse_recursive_loop.simps find_chr_def DOLLAR_def)
  apply (simp add: vector_loop_comma vector_loop_last npos_def trim_def
      find_first_not_of_def find_last_not_of_def whitespace_def substr_def)
  done

text \<open>
  The example of the claim does hold: the value \<open>"el1,el2 ,el3, el4"\<close> yields the four
  elements without whitespace, since no segment has whitespace on both sides.
\<close>

lemma get_vector_example:
  "get_vector ''vector'' []
     \<lparr>recursion_level = 3, smap = [(''vector'', ''el1,el2 ,el3, el4'')], reserve = []\<rparr>
   = Inr (True, [''el1'', ''el2'', ''el3'', ''el4''],
          \<lparr>recursion_level = 3, smap = [(''vector'', ''el1,el2 ,el3, el4'')],
            reserve = ''el1,el2 ,el3, el4''\<rparr>)"
  apply (simp add: get_vector_def get_value_def parse_recursive_def
      parse_recursive_loop.simps find_chr_def DOLLAR_def)
  apply (simp add: vector_loop_comma vector_loop_last npos_def trim_def
      find_first_not_of_def find_last_not_of_def whitespace_def substr_def)
  done

section \<open>\<open>insert\<close>\<close>

lemmas eval_insert = insert_line_def find_chr_def int_of_size_t_def size_t_of_int_def
  int_plus_def Let_def

text \<open>
  A line without \<open>=\<close>: \<open>find\<close> returns \<open>npos\<close>, which becomes \<open>-1\<close> in the \<open>int\<close>
  \<open>break_pos\<close>; \<open>substr(0, break_pos)\<close> and \<open>substr(break_pos + 1)\<close> then both take the
  entire line. The entry stored maps what \<open>trim\<close> returns for the line to itself: the
  line is neither dropped nor stored with an empty value.
\<close>

lemma insert_line_no_separator:
  assumes "CHR ''='' \<notin> set s" and "trim s \<noteq> []" and "length s < npos"
  shows "insert_line s st = Inr (st\<lparr>smap := map_set (trim s) (trim s) (smap st)\<rparr>) \<and>
         map_of (map_set (trim s) (trim s) (smap st)) (trim s) = Some (trim s)"
proof -
  have "find_chr s (CHR ''='') 0 = npos" using assms(1) by (simp add: find_chr_absent)
  moreover have "take npos s = s" using assms(3) by simp
  ultimately show ?thesis using assms(2)
    by (simp add: insert_line_def int_of_size_t_npos size_t_of_int_m1 int_plus_m1
        substr_def map_of_map_set Let_def)
qed

text \<open>
  When the line has no leading whitespace, that is the line without its trailing
  whitespace.
\<close>

lemma insert_line_no_separator_no_leading:
  assumes "CHR ''='' \<notin> set s" and "s \<noteq> []" and "hd s \<notin> set whitespace"
    and "length s < npos"
  shows "insert_line s st =
         Inr (st\<lparr>smap := map_set (rev (dropWhile (\<lambda>x. x \<in> set whitespace) (rev s)))
                               (rev (dropWhile (\<lambda>x. x \<in> set whitespace) (rev s))) (smap st)\<rparr>)"
proof -
  have t: "trim s = rev (dropWhile (\<lambda>x. x \<in> set whitespace) (rev s))"
    using assms(2,3) by (rule trim_no_leading)
  have "\<not> (\<forall>x \<in> set (rev s). x \<in> set whitespace)"
    using not_all_ws_hd [OF assms(2,3)] by simp
  then have "dropWhile (\<lambda>x. x \<in> set whitespace) (rev s) \<noteq> []"
    by (simp only: dropWhile_eq_Nil_conv) simp
  then have "trim s \<noteq> []" using t by simp
  then show ?thesis using insert_line_no_separator [OF assms(1) _ assms(4), of st] t by simp
qed

text \<open>
  C9. The claim: a line without \<open>=\<close> whose trimmed text is not empty is stored with the
  whole trimmed line as the key and as the value. The code stores the line under a key
  and with a value (it is neither dropped nor given an empty value), but both are what
  \<open>trim\<close> returns, and \<open>trim\<close> keeps trailing whitespace of a line that also has
  leading whitespace (C4): for the line \<open>" abc  "\<close> the entry is \<open>"abc "\<close> to \<open>"abc "\<close>,
  not \<open>"abc"\<close> to \<open>"abc"\<close>.
\<close>

theorem insert_without_separator_keeps_space:
  "insert_line '' abc  '' (new_setting 3)
     = Inr \<lparr>recursion_level = 3, smap = [(''abc '', ''abc '')], reserve = []\<rparr>"
proof -
  have t: "trim '' abc  '' = ''abc ''" by (simp add: eval_trim)
  show ?thesis
    using insert_line_no_separator [of "'' abc  ''" "new_setting 3"]
    by (simp add: t new_setting_def npos_def)
qed

lemma insert_line_split:
  assumes "CHR ''='' \<notin> set k" "length k + length w + 2 < 2 ^ 31"
  shows "insert_line (k @ '' ='' @ w) st =
         Inr (if trim (k @ '' '') \<noteq> [] then st\<lparr>smap := map_set (trim (k @ '' '')) (trim w) (smap st)\<rparr>
              else st)"
proof -
  let ?t = "k @ '' ='' @ w"
  have "takeWhile (\<lambda>x. x \<noteq> CHR ''='') (k @ '' ='' @ w)
        = k @ takeWhile (\<lambda>x. x \<noteq> CHR ''='') ('' ='' @ w)"
    using assms(1) by (intro takeWhile_append2) auto
  then have "takeWhile (\<lambda>x. x \<noteq> CHR ''='') ?t = k @ '' ''" by simp
  then have f: "find_chr ?t (CHR ''='') 0 = length k + 1"
    by (simp add: find_chr_def)
  have l: "length k + 1 < 2 ^ 31" "length k + 1 + 1 < 2 ^ 31" "length k + 2 < 2 ^ 31"
    using assms(2) by simp_all
  have "(2::nat) ^ 31 < npos" by (simp add: npos_def)
  then have w: "take npos w = w" using assms(2) by simp
  have bp: "int_of_size_t (length k + 1) = int (length k + 1)"
    using l(1) by (rule int_of_size_t_small)
  have p1: "size_t_of_int (int (length k + 1)) = length k + 1"
    using l(1) by (rule size_t_of_int_small)
  have p2: "size_t_of_int (int_plus (int (length k + 1)) 1) = length k + 2"
    using int_plus_small [OF l(2)] size_t_of_int_small [OF l(3)] by simp
  show ?thesis
    unfolding insert_line_def f bp p1 p2 Let_def
    by (simp add: substr_def w)
qed

text \<open>\<open>insert\<close> keeps the keys of the map in ascending order.\<close>

lemma insert_line_map_ok:
  "map_ok (smap st) \<Longrightarrow> insert_line s st = Inr st' \<Longrightarrow> map_ok (smap st')"
  by (auto simp: insert_line_def Let_def map_ok_map_set split: if_splits)

section \<open>\<open>dump\<close> and \<open>read_from_file\<close>\<close>

lemma dump_loop_concat: "dump_loop m acc = acc @ concat (map line_of m)"
  by (induction m acc rule: dump_loop.induct) (simp_all add: line_of_def)

lemma trim_key_space:
  assumes "plain_key k"
  shows "trim (k @ '' '') = k"
proof -
  have "trim (k @ '' '') = rev (dropWhile (\<lambda>x. x \<in> set whitespace) (rev (k @ '' '')))"
    using assms by (intro trim_no_leading) (simp_all add: plain_key_def)
  also have "\<dots> = rev (dropWhile (\<lambda>x. x \<in> set whitespace) (rev k))"
    by (simp add: ws_simps)
  also have "\<dots> = rev (rev k)"
    using assms by (cases "rev k") (auto simp: plain_key_def last_rev hd_rev)
  finally show ?thesis by simp
qed

lemma trim_space_value:
  assumes "plain_value v" "length v + 1 < npos"
  shows "trim ('' '' @ v) = v"
proof (cases "v = []")
  case True
  then show ?thesis
    by (simp add: trim_def find_first_not_of_def whitespace_def)
next
  case False
  then have p: "hd v \<notin> set whitespace" "last v \<notin> set whitespace"
    using assms by (simp_all add: plain_value_def)
  have "trim ('' '' @ v) = dropWhile (\<lambda>x. x \<in> set whitespace) ('' '' @ v)"
    using False p assms(2) by (intro trim_no_trailing) simp_all
  also have "\<dots> = v"
    using False p by (cases v) (simp_all add: ws_simps)
  finally show ?thesis .
qed

lemma trim_line:
  assumes "plain_key k" "plain_value v"
  shows "trim (k @ '' = '' @ v) = k @ '' ='' @ (if v = [] then [] else '' '' @ v)"
proof -
  have k: "k \<noteq> []" "hd k \<notin> set whitespace" using assms by (simp_all add: plain_key_def)
  have "trim (k @ '' = '' @ v)
        = rev (dropWhile (\<lambda>x. x \<in> set whitespace) (rev (k @ '' = '' @ v)))"
    using k by (intro trim_no_leading) simp_all
  also have "\<dots> = k @ '' ='' @ (if v = [] then [] else '' '' @ v)"
  proof (cases "v = []")
    case True
    then show ?thesis by (simp add: ws_simps)
  next
    case False
    then have "last v \<notin> set whitespace" using assms by (simp add: plain_value_def)
    then have "dropWhile (\<lambda>x. x \<in> set whitespace) (rev v @ '' = '' @ rev k) = rev v @ '' = '' @ rev k"
      using False by (cases "rev v") (auto simp: last_rev hd_rev)
    then show ?thesis using False by simp
  qed
  finally show ?thesis .
qed

lemma read_loop_Nil: "read_loop [] st = Inr st"
  by (subst read_loop.simps) simp

lemma read_loop_line:
  assumes "CHR 0x0A \<notin> set l"
  shows "read_loop (l @ CHR 0x0A # rest) st =
         (if trim l \<noteq> [] \<and> hd (trim l) \<noteq> CHR ''#'' then
            (case insert_line (trim l) st of Inl e \<Rightarrow> Inl e | Inr st' \<Rightarrow> read_loop rest st')
          else read_loop rest st)"
proof -
  have t: "takeWhile (\<lambda>x. x \<noteq> CHR 0x0A) (l @ CHR 0x0A # rest) = l"
    using assms by (subst takeWhile_append2) auto
  have d: "dropWhile (\<lambda>x. x \<noteq> CHR 0x0A) (l @ CHR 0x0A # rest) = CHR 0x0A # rest"
    using assms by (subst dropWhile_append2) auto
  show ?thesis
    by (subst read_loop.simps) (simp add: t d Let_def)
qed

lemma read_loop_entry:
  assumes "plain_entry (k, v)"
  shows "read_loop (line_of (k, v) @ rest) st = read_loop rest (st\<lparr>smap := map_set k v (smap st)\<rparr>)"
proof -
  let ?w = "if v = [] then [] else '' '' @ v"
  have pk: "plain_key k" and pv: "plain_value v" and len: "length k + length v + 3 < 2 ^ 31"
    using assms by (simp_all add: plain_entry_def)
  have nl: "CHR 0x0A \<notin> set (k @ '' = '' @ v)"
    using pk pv by (simp add: plain_key_def plain_value_def)
  have t: "trim (k @ '' = '' @ v) = k @ '' ='' @ ?w"
    using pk pv by (rule trim_line)
  have k: "k \<noteq> []" "hd k \<noteq> CHR ''#''" "CHR ''='' \<notin> set k"
    using pk by (simp_all add: plain_key_def)
  have "(2::nat) ^ 31 < npos" by (simp add: npos_def)
  then have vl: "length v + 1 < npos" using len by simp
  have tw: "trim ?w = v"
    using trim_space_value [OF pv vl] by (simp add: trim_Nil)
  have lw: "length k + length ?w + 2 < 2 ^ 31" using len by simp
  have "insert_line (k @ '' ='' @ ?w) st =
        Inr (if trim (k @ '' '') \<noteq> []
             then st\<lparr>smap := map_set (trim (k @ '' '')) (trim ?w) (smap st)\<rparr> else st)"
    using k(3) lw by (rule insert_line_split)
  then have ins: "insert_line (k @ '' ='' @ ?w) st = Inr (st\<lparr>smap := map_set k v (smap st)\<rparr>)"
    unfolding trim_key_space [OF pk] tw using k(1) by simp
  have "read_loop (line_of (k, v) @ rest) st = read_loop ((k @ '' = '' @ v) @ CHR 0x0A # rest) st"
    by (simp add: line_of_def)
  also have "\<dots> = read_loop rest (st\<lparr>smap := map_set k v (smap st)\<rparr>)"
    unfolding read_loop_line [OF nl] t ins using k by simp
  finally show ?thesis .
qed

lemma read_loop_entries:
  assumes "\<forall>e \<in> set es. plain_entry e"
  shows "read_loop (concat (map line_of es)) st =
         Inr (st\<lparr>smap := foldl (\<lambda>m e. map_set (fst e) (snd e) m) (smap st) es\<rparr>)"
  using assms
proof (induction es arbitrary: st)
  case Nil
  then show ?case by (simp add: read_loop_Nil)
next
  case (Cons e es)
  obtain k v where e: "e = (k, v)" by (cases e)
  then have "plain_entry (k, v)" using Cons.prems by simp
  then have "read_loop (concat (map line_of (e # es))) st
             = read_loop (concat (map line_of es)) (st\<lparr>smap := map_set k v (smap st)\<rparr>)"
    using e by (simp add: read_loop_entry)
  then show ?case using Cons.IH [of "st\<lparr>smap := map_set k v (smap st)\<rparr>"] Cons.prems e by simp
qed

lemma foldl_map_set_sorted:
  "map_ok (m @ es) \<Longrightarrow> foldl (\<lambda>m e. map_set (fst e) (snd e) m) m es = m @ es"
proof (induction es arbitrary: m)
  case Nil
  then show ?case by simp
next
  case (Cons e es)
  have "\<forall>k' \<in> set (map fst m). k' < fst e"
    using Cons.prems by (auto simp: map_ok_def sorted_wrt_append)
  then have "map_set (fst e) (snd e) m = m @ [e]" by (simp add: map_set_append)
  moreover have "map_ok ((m @ [e]) @ es)" using Cons.prems by simp
  ultimately show ?case using Cons.IH [of "m @ [e]"] by simp
qed

text \<open>
  C5, as amended. For every store \<open>dump\<close> writes one line \<open>key = value\<close> and a
  newline per entry, with the raw value, in the order of the map, which is ascending
  in the keys. When every entry of the store is plain (\<open>plain_entry\<close>), reading the dump into a new
  object with the same recursion level succeeds and gives the same map, so every raw
  value resolves to the same string in both, and the string getter returns the same
  result for every key.
\<close>

theorem dump_reload:
  "dump S = concat (map line_of (smap S)) \<and>
   (map_ok (smap S) \<longrightarrow> sorted_wrt (<) (map fst (smap S))) \<and>
   (map_ok (smap S) \<and> (\<forall>e \<in> set (smap S). plain_entry e) \<longrightarrow>
      (\<exists>S'. read_from_file (Some (dump S)) (new_setting (recursion_level S)) = Inr S' \<and>
            smap S' = smap S \<and>
            (\<forall>v. parse_recursive S' v = parse_recursive S v) \<and>
            (\<forall>K d. fst (get_cstr K d S') = fst (get_cstr K d S))))"
proof (intro conjI impI)
  show d: "dump S = concat (map line_of (smap S))"
    by (simp add: dump_def dump_loop_concat)
  assume "map_ok (smap S)"
  then show "sorted_wrt (<) (map fst (smap S))"
    by (simp add: map_ok_def)
next
  assume a: "map_ok (smap S) \<and> (\<forall>e \<in> set (smap S). plain_entry e)"
  have d: "dump S = concat (map line_of (smap S))"
    by (simp add: dump_def dump_loop_concat)
  let ?S' = "\<lparr>recursion_level = recursion_level S, smap = smap S, reserve = []\<rparr>"
  have "foldl (\<lambda>m e. map_set (fst e) (snd e) m) [] (smap S) = [] @ smap S"
    using a by (intro foldl_map_set_sorted) simp
  then have "read_from_file (Some (dump S)) (new_setting (recursion_level S)) = Inr ?S'"
    using a by (simp add: read_from_file_def d read_loop_entries new_setting_def)
  moreover have "\<forall>v. parse_recursive ?S' v = parse_recursive S v"
    by (intro allI parse_recursive_cong) simp_all
  moreover have "\<forall>K d. fst (get_cstr K d ?S') = fst (get_cstr K d S)"
    by (intro allI get_cstr_cong) simp_all
  ultimately show "\<exists>S'. read_from_file (Some (dump S)) (new_setting (recursion_level S)) = Inr S' \<and>
               smap S' = smap S \<and>
               (\<forall>v. parse_recursive S' v = parse_recursive S v) \<and>
               (\<forall>K d. fst (get_cstr K d S') = fst (get_cstr K d S))"
    by (intro exI [of _ ?S']) simp
qed

theorem dump_reload_witness:
  "dump \<lparr>recursion_level = 3, smap = [(''a'', ''1''), (''b'', ''$a = x'')], reserve = []\<rparr>
     = ''a = 1'' @ [CHR 0x0A] @ ''b = $a = x'' @ [CHR 0x0A] \<and>
   (\<exists>S'. read_from_file (Some (''a = 1'' @ [CHR 0x0A] @ ''b = $a = x'' @ [CHR 0x0A]))
            (new_setting 3) = Inr S' \<and>
         smap S' = [(''a'', ''1''), (''b'', ''$a = x'')] \<and>
         fst (get_cstr ''b'' None S') = Some ''1 = x'')"
proof -
  let ?S = "\<lparr>recursion_level = 3, smap = [(''a'', ''1''), (''b'', ''$a = x'')], reserve = []\<rparr>"
  have ok: "map_ok (smap ?S)" by (simp add: map_ok_def)
  have pl: "\<forall>e \<in> set (smap ?S). plain_entry e"
    by (simp add: plain_entry_def plain_key_def plain_value_def whitespace_def)
  have d: "dump ?S = ''a = 1'' @ [CHR 0x0A] @ ''b = $a = x'' @ [CHR 0x0A]"
    by (simp add: dump_def)
  have p1: "parse_once [(''a'', ''1''), (''b'', ''$a = x'')] ''$a = x'' = ''1 = x''" by code_simp
  have p2: "parse_once [(''a'', ''1''), (''b'', ''$a = x'')] ''1 = x'' = ''1 = x''" by code_simp
  have l: "length ''$a = x'' < npos" by (simp add: npos_def)
  have "parse_recursive ?S ''$a = x'' = ''1 = x''"
    using p1 p2 by (simp add: parse_recursive_funpow [OF l] numeral_3_eq_3 DOLLAR_def)
  then have g: "fst (get_cstr ''b'' None ?S) = Some ''1 = x''"
    by (simp add: get_cstr_def get_value_def c_str_def NUL_def)
  show ?thesis
    using dump_reload [of ?S] ok pl g unfolding d by auto
qed

text \<open>
  C5 as stated, for every store, fails: \<open>operator<<\<close> accepts the line \<open>#k = v\<close>
  and stores the key \<open>#k\<close>; \<open>dump\<close> writes \<open>#k = v\<close>, which \<open>read_from_file\<close> skips
  as a comment. The key resolves to \<open>v\<close> in the store and is absent after the reload.
\<close>

theorem dump_reload_counterexample:
  "insert_line ''#k = v'' (new_setting 3)
     = Inr \<lparr>recursion_level = 3, smap = [(''#k'', ''v'')], reserve = []\<rparr> \<and>
   dump \<lparr>recursion_level = 3, smap = [(''#k'', ''v'')], reserve = []\<rparr> = ''#k = v'' @ [CHR 0x0A] \<and>
   read_from_file (Some (dump \<lparr>recursion_level = 3, smap = [(''#k'', ''v'')], reserve = []\<rparr>))
     (new_setting 3) = Inr (new_setting 3) \<and>
   fst (get_cstr ''#k'' None \<lparr>recursion_level = 3, smap = [(''#k'', ''v'')], reserve = []\<rparr>)
     = Some ''v'' \<and>
   fst (get_cstr ''#k'' None (new_setting 3)) = None"
proof -
  let ?S = "\<lparr>recursion_level = 3, smap = [(''#k'', ''v'')], reserve = []\<rparr>"
  have i: "insert_line ''#k = v'' (new_setting 3) = Inr ?S"
    by (simp add: eval_insert eval_trim new_setting_def)
  have d: "dump ?S = ''#k = v'' @ [CHR 0x0A]"
    by (simp add: dump_def)
  have t: "trim ''#k = v'' = ''#k = v''" by (simp add: eval_trim)
  have "read_loop (''#k = v'' @ CHR 0x0A # []) (new_setting 3) = Inr (new_setting 3)"
    by (subst read_loop_line) (simp_all add: t read_loop_Nil)
  then have r: "read_from_file (Some (dump ?S)) (new_setting 3) = Inr (new_setting 3)"
    by (simp add: read_from_file_def d)
  have l: "length ''v'' < npos" by (simp add: npos_def)
  have "parse_recursive ?S ''v'' = ''v''"
    by (simp add: parse_recursive_funpow [OF l] DOLLAR_def)
  then have g: "fst (get_cstr ''#k'' None ?S) = Some ''v''"
    by (simp add: get_cstr_def get_value_def c_str_def NUL_def)
  have n: "fst (get_cstr ''#k'' None (new_setting 3)) = None"
    by (simp add: get_cstr_def get_value_def new_setting_def)
  show ?thesis using i d r g n by simp
qed

text \<open>
  A value that ends in whitespace (which \<open>trim\<close> can leave, see C4) is not read back
  either: the reload trims the dumped line from position 0 and loses it.
\<close>

lemma reload_drops_trailing_space:
  "insert_line ''k =  v '' (new_setting 3)
     = Inr \<lparr>recursion_level = 3, smap = [(''k'', ''v '')], reserve = []\<rparr> \<and>
   read_from_file (Some (dump \<lparr>recursion_level = 3, smap = [(''k'', ''v '')], reserve = []\<rparr>))
     (new_setting 3) = Inr \<lparr>recursion_level = 3, smap = [(''k'', ''v'')], reserve = []\<rparr>"
proof -
  let ?S = "\<lparr>recursion_level = 3, smap = [(''k'', ''v '')], reserve = []\<rparr>"
  have i: "insert_line ''k =  v '' (new_setting 3) = Inr ?S"
    by (simp add: eval_insert eval_trim new_setting_def)
  have d: "dump ?S = ''k = v '' @ [CHR 0x0A]"
    by (simp add: dump_def)
  have t: "trim ''k = v '' = ''k = v''" by (simp add: eval_trim)
  have i2: "insert_line ''k = v'' (new_setting 3)
            = Inr \<lparr>recursion_level = 3, smap = [(''k'', ''v'')], reserve = []\<rparr>"
    by (simp add: eval_insert eval_trim new_setting_def)
  have "read_loop (''k = v '' @ CHR 0x0A # []) (new_setting 3)
        = Inr \<lparr>recursion_level = 3, smap = [(''k'', ''v'')], reserve = []\<rparr>"
    by (subst read_loop_line) (simp_all add: t i2 read_loop_Nil)
  then show ?thesis using i by (simp add: read_from_file_def d)
qed

end
